theory Spec2Isabelle
  imports Main
begin

section \<open>The bounded-concurrency task runner (class \<open>Runner\<close>)\<close>

text \<open>
  The development embeds the class \<open>Runner\<close> of the repository: its constructor and the
  shared object \<open>DEFAULT_RUNNER_OPTIONS\<close>, \<open>add\<close>, \<open>addMany\<close>, \<open>on\<close>, the private
  \<open>#emit\<close> with its two type guards, the getter \<open>complete\<close> and \<open>runAll\<close> with its
  inner asynchronous function \<open>runTask\<close>.

  JavaScript runs one piece of synchronous code at a time. An \<open>async\<close> function runs
  synchronously up to its \<open>await\<close>, is suspended there, and is resumed in a later
  microtask when the awaited promise has settled. A state of the model is therefore a
  state between two such pieces: the fields of the object, the suspended calls of
  \<open>runTask\<close>, and what the run has done to the outside (the calls of the promise's
  \<open>resolve\<close> and \<open>reject\<close>, and the calls of event handlers).

  What the model takes from its environment:
  \<^item> a task \<open>cb\<close> returns a promise, as its type \<open>Task<T>\<close> says, and never throws before
    returning it; what that promise settles to is a function of the arguments
    \<open>(index, label)\<close>; when it settles is chosen by the schedule;
  \<^item> an event handler is opaque and returns normally; its invocation is recorded. So
    nothing is thrown outside the \<open>await\<close>, and the \<open>catch\<close> attached to the first calls
    of \<open>runTask\<close> (the fatal error of \<open>runAll\<close>) has nothing to catch;
  \<^item> the console output of the verbose mode is not modelled: none of the logging
    functions touches a field of the runner;
  \<^item> numbers are integers; \<open>tolerance\<close> may also be \<open>Infinity\<close>; \<open>concurrentLimit\<close> is a
    natural number; a duration is a natural number of milliseconds;
  \<^item> the queue is filled before \<open>runAll\<close> is called and \<open>runAll\<close> is called once.
\<close>

subsection \<open>Values and outcomes\<close>

text \<open>A JavaScript value as far as the runner looks at it: \<open>null\<close>, an instance of
  \<open>Error\<close> (with its message), or any other value of the task's result type.\<close>

datatype 'a val = Null | ErrorObj string | Data 'a

text \<open>\<open>v instanceof Error\<close>\<close>

fun instanceof_Error :: "'a val \<Rightarrow> bool" where
  "instanceof_Error (ErrorObj m) = True"
| "instanceof_Error Null = False"
| "instanceof_Error (Data x) = False"

text \<open>What the promise returned by a task settles to: fulfilled with a value, or rejected
  with the value that the \<open>catch\<close> clause of \<open>runTask\<close> receives.\<close>

datatype 'a settled = Fulfilled "'a val" | Thrown "'a val"

text \<open>The type \<open>number\<close> of \<open>tolerance\<close>.\<close>

datatype number = Num int | Infinity

text \<open>\<open>n > t\<close> for an array length \<open>n\<close> and a number \<open>t\<close>.\<close>

fun length_gt :: "nat \<Rightarrow> number \<Rightarrow> bool" where
  "length_gt n (Num t) = (t < int n)"
| "length_gt n Infinity = False"

text \<open>The field \<open>meta\<close> of \<open>TaskResult\<close> and \<open>TaskError\<close>; \<open>mlabel\<close> is its \<open>label\<close>.
  The duration is a difference of two clock readings, in milliseconds.\<close>

record Meta =
  index :: int
  mlabel :: "string option"
  duration :: nat

text \<open>\<open>TaskEvent<T> = TaskResult<T> | TaskError\<close>: both have the fields \<open>result\<close>,
  \<open>error\<close> and \<open>meta\<close>; a \<open>TaskResult\<close> has \<open>error: null\<close>, a \<open>TaskError\<close> has
  \<open>result: null\<close>.\<close>

record 'a TaskEvent =
  result :: "'a val"
  error :: "'a val"
  meta :: Meta

text \<open>An element of \<open>queue\<close>: \<open>{ cb, label }\<close>.\<close>

record 'a taskObj =
  cb :: "int \<Rightarrow> string option \<Rightarrow> 'a settled"
  label :: "string option"

datatype EventName = taskCompleted | taskFailed

text \<open>An event handler, known by an identifier.\<close>

type_synonym handler = nat

subsection \<open>The state\<close>

text \<open>A call of \<open>runTask\<close> suspended at \<open>await cb(index, label)\<close>: its local variables
  \<open>index\<close> and \<open>label\<close>, and what the awaited promise settles to.\<close>

record 'a suspended =
  k_index :: int
  k_label :: "string option"
  k_awaited :: "'a settled"

text \<open>A call of one of the two functions of the promise that \<open>runAll\<close> returns:
  \<open>resolve({ results, error: null })\<close> or \<open>reject({ result, error })\<close>.\<close>

datatype 'a settleCall =
    Resolve "'a TaskEvent list"
  | Reject "'a TaskEvent list" "'a val"

text \<open>
  The fields of the class, in the order of the source, followed by the three components
  that the run adds: the suspended calls of \<open>runTask\<close> (\<open>awaiting\<close>), the calls of
  \<open>resolve\<close> and \<open>reject\<close> in the order they were made (\<open>settleCalls\<close>), and the handler
  invocations in the order they were made (\<open>handlerCalls\<close>).
  \<open>#listeners\<close> is indexed by the event name, as in \<open>this.#listeners[event]\<close>.
  The arrays handed to \<open>resolve\<close> and \<open>reject\<close> are \<open>this.completeTasks\<close> itself; a
  settle call records the contents the array has at the call.
\<close>

record 'a Runner =
  concurrentLimit :: nat
  queue :: "'a taskObj list"
  numActive :: int
  numComplete :: int
  verbose :: bool
  tolerance :: number
  abort :: bool
  listeners :: "EventName \<Rightarrow> handler list"
  completeTasks :: "'a TaskEvent list"
  failedTasks :: "'a TaskEvent list"
  numTotal :: int
  awaiting :: "'a suspended list"
  settleCalls :: "'a settleCall list"
  handlerCalls :: "(handler \<times> 'a TaskEvent) list"

text \<open>A promise is settled by the first call of \<open>resolve\<close> or \<open>reject\<close>; later calls
  do nothing to it.\<close>

datatype 'a promise = Pending | Resolved "'a TaskEvent list" | Rejected "'a TaskEvent list" "'a val"

definition promise :: "'a Runner \<Rightarrow> 'a promise" where
  "promise s =
     (case settleCalls s of
        [] \<Rightarrow> Pending
      | Resolve rs # _ \<Rightarrow> Resolved rs
      | Reject rs e # _ \<Rightarrow> Rejected rs e)"

subsection \<open>Construction and registration\<close>

text \<open>The module-level object \<open>DEFAULT_RUNNER_OPTIONS\<close>. It starts with \<open>verbose\<close> and
  \<open>tolerance\<close> only; \<open>Object.assign\<close> can add the two handler properties to it.\<close>

record RunnerOptions =
  opt_verbose :: bool
  opt_tolerance :: number
  opt_onTaskComplete :: "handler option"
  opt_onTaskFailed :: "handler option"

definition DEFAULT_RUNNER_OPTIONS :: RunnerOptions where
  "DEFAULT_RUNNER_OPTIONS =
     \<lparr>opt_verbose = True, opt_tolerance = Num 0,
      opt_onTaskComplete = None, opt_onTaskFailed = None\<rparr>"

text \<open>The object passed as \<open>options\<close>: \<open>None\<close> is a property the object does not have.\<close>

record OptionsArg =
  arg_verbose :: "bool option"
  arg_tolerance :: "number option"
  arg_onTaskComplete :: "handler option"
  arg_onTaskFailed :: "handler option"

text \<open>\<open>Object.assign(target, source)\<close>: every property of the source is written to the
  target, which is returned; an undefined source changes nothing.\<close>

definition Object_assign :: "RunnerOptions \<Rightarrow> OptionsArg option \<Rightarrow> RunnerOptions" where
  "Object_assign target source =
     (case source of
        None \<Rightarrow> target
      | Some src \<Rightarrow>
          \<lparr>opt_verbose = (case arg_verbose src of None \<Rightarrow> opt_verbose target | Some v \<Rightarrow> v),
           opt_tolerance = (case arg_tolerance src of None \<Rightarrow> opt_tolerance target | Some t \<Rightarrow> t),
           opt_onTaskComplete =
             (case arg_onTaskComplete src of None \<Rightarrow> opt_onTaskComplete target | Some h \<Rightarrow> Some h),
           opt_onTaskFailed =
             (case arg_onTaskFailed src of None \<Rightarrow> opt_onTaskFailed target | Some h \<Rightarrow> Some h)\<rparr>)"

text \<open>\<open>on(event, listener)\<close>\<close>

definition on :: "EventName \<Rightarrow> handler \<Rightarrow> 'a Runner \<Rightarrow> 'a Runner" where
  "on event listener s = s\<lparr>listeners := (listeners s)(event := listeners s event @ [listener])\<rparr>"

text \<open>
  The constructor. The second argument is \<open>options\<close>, the third the current contents of
  \<open>DEFAULT_RUNNER_OPTIONS\<close>. \<open>opts\<close> is the object that \<open>Object.assign\<close> returns, that is
  its target, so the constructor returns the new runner together with the new contents of
  \<open>DEFAULT_RUNNER_OPTIONS\<close>. \<open>concurrentLimit\<close> defaults to 5.
\<close>

definition new_Runner ::
  "nat option \<Rightarrow> OptionsArg option \<Rightarrow> RunnerOptions \<Rightarrow> 'a Runner \<times> RunnerOptions" where
  "new_Runner limit options defaults =
     (let opts = Object_assign defaults options;
          s0 = \<lparr>concurrentLimit = (case limit of None \<Rightarrow> 5 | Some n \<Rightarrow> n),
                queue = [], numActive = 0, numComplete = 0,
                verbose = opt_verbose opts, tolerance = opt_tolerance opts,
                abort = False, listeners = (\<lambda>event. []),
                completeTasks = [], failedTasks = [], numTotal = 0,
                awaiting = [], settleCalls = [], handlerCalls = []\<rparr>;
          s1 = (case opt_onTaskComplete opts of None \<Rightarrow> s0 | Some h \<Rightarrow> on taskCompleted h s0);
          s2 = (case opt_onTaskFailed opts of None \<Rightarrow> s1 | Some h \<Rightarrow> on taskFailed h s1)
      in (s2, opts))"

text \<open>\<open>add(cb, label)\<close>\<close>

definition add ::
  "(int \<Rightarrow> string option \<Rightarrow> 'a settled) \<Rightarrow> string option \<Rightarrow> 'a Runner \<Rightarrow> 'a Runner" where
  "add f l s = s\<lparr>queue := queue s @ [\<lparr>cb = f, label = l\<rparr>]\<rparr>"

text \<open>\<open>addMany(cbs, labels)\<close>: \<open>labels?.[i]\<close> is undefined when there is no array of
  labels or when it is too short.\<close>

definition label_at :: "string list option \<Rightarrow> nat \<Rightarrow> string option" where
  "label_at labels i =
     (case labels of
        None \<Rightarrow> None
      | Some ls \<Rightarrow> (if i < length ls then Some (ls ! i) else None))"

definition addMany ::
  "(int \<Rightarrow> string option \<Rightarrow> 'a settled) list \<Rightarrow> string list option \<Rightarrow> 'a Runner \<Rightarrow> 'a Runner" where
  "addMany cbs labels s = foldl (\<lambda>t i. add (cbs ! i) (label_at labels i) t) s [0..<length cbs]"

subsection \<open>Event dispatch\<close>

text \<open>\<open>#isFailedEvent\<close> tests \<open>e.result instanceof Error\<close>; \<open>#isCompletedEvent\<close> is its
  negation.\<close>

definition isFailedEvent :: "'a TaskEvent \<Rightarrow> bool" where
  "isFailedEvent e = instanceof_Error (result e)"

definition isCompletedEvent :: "'a TaskEvent \<Rightarrow> bool" where
  "isCompletedEvent e = (\<not> isFailedEvent e)"

text \<open>\<open>hs?.[i]?.(e)\<close>: the call is made when the array has an element at \<open>i\<close>.\<close>

definition invoke :: "handler list \<Rightarrow> nat \<Rightarrow> 'a TaskEvent \<Rightarrow> (handler \<times> 'a TaskEvent) list" where
  "invoke hs i e = (if i < length hs then [(hs ! i, e)] else [])"

text \<open>The handler calls of one \<open>#emit(event, e)\<close>: the loop runs over the indices of
  \<open>this.#listeners[event]\<close>; which array is called at \<open>i\<close> is decided by the two guards.\<close>

definition emitted :: "(EventName \<Rightarrow> handler list) \<Rightarrow> EventName \<Rightarrow> 'a TaskEvent \<Rightarrow> (handler \<times> 'a TaskEvent) list" where
  "emitted ls event e =
     concat (map (\<lambda>i. if isCompletedEvent e then invoke (ls taskCompleted) i e
                      else if isFailedEvent e then invoke (ls taskFailed) i e
                      else [])
                 [0..<length (ls event)])"

definition emit :: "EventName \<Rightarrow> 'a TaskEvent \<Rightarrow> 'a Runner \<Rightarrow> 'a Runner" where
  "emit event e s = s\<lparr>handlerCalls := handlerCalls s @ emitted (listeners s) event e\<rparr>"

subsection \<open>Running the queue\<close>

text \<open>The getter \<open>complete\<close>.\<close>

definition complete :: "'a Runner \<Rightarrow> bool" where
  "complete s = (length (queue s) = 0 \<and> numActive s = 0)"

text \<open>Decimal digits of a length, for the template string of the error message.\<close>

fun digits :: "nat \<Rightarrow> string" where
  "digits n =
     (if n < 10 then [''0123456789'' ! n]
      else digits (n div 10) @ [''0123456789'' ! (n mod 10)])"

declare digits.simps [simp del]

definition tolerance_message :: "nat \<Rightarrow> string" where
  "tolerance_message n = ''Runner tolerance exceeded. '' @ digits n @ '' tasks failed.''"

text \<open>\<open>resolve\<close> and \<open>reject\<close> of the promise of the run.\<close>

definition resolve :: "'a TaskEvent list \<Rightarrow> 'a Runner \<Rightarrow> 'a Runner" where
  "resolve rs s = s\<lparr>settleCalls := settleCalls s @ [Resolve rs]\<rparr>"

definition reject :: "'a TaskEvent list \<Rightarrow> 'a val \<Rightarrow> 'a Runner \<Rightarrow> 'a Runner" where
  "reject rs e s = s\<lparr>settleCalls := settleCalls s @ [Reject rs e]\<rparr>"

text \<open>
  \<open>runTask\<close> from its entry to the \<open>await\<close>: it returns at once when the abort flag is
  set or when \<open>queue.shift()\<close> gives nothing; otherwise it counts the task as active,
  computes \<open>index\<close>, calls \<open>cb(index, label)\<close> and is suspended.
\<close>

definition runTask :: "'a Runner \<Rightarrow> 'a Runner" where
  "runTask s =
     (if abort s then s
      else case queue s of
        [] \<Rightarrow> s
      | taskObj # rest \<Rightarrow>
          (let s1 = s\<lparr>queue := rest, numActive := numActive s + 1\<rparr>;
               i = numActive s1 + numComplete s1
           in s1\<lparr>awaiting := awaiting s1 @
                  [\<lparr>k_index = i, k_label = label taskObj,
                    k_awaited = cb taskObj i (label taskObj)\<rparr>]\<rparr>))"

text \<open>The rest of the \<open>try\<close> block, for a task that was fulfilled with \<open>v\<close>.\<close>

definition on_fulfilled :: "int \<Rightarrow> string option \<Rightarrow> nat \<Rightarrow> 'a val \<Rightarrow> 'a Runner \<Rightarrow> 'a Runner" where
  "on_fulfilled i l d v s =
     (let taskResult = \<lparr>result = v, error = Null,
                         meta = \<lparr>index = i, mlabel = l, duration = d\<rparr>\<rparr>;
          s1 = s\<lparr>completeTasks := completeTasks s @ [taskResult]\<rparr>
      in emit taskCompleted taskResult s1)"

text \<open>The \<open>catch\<close> block, for a task that threw \<open>e\<close>.\<close>

definition on_thrown :: "int \<Rightarrow> string option \<Rightarrow> nat \<Rightarrow> 'a val \<Rightarrow> 'a Runner \<Rightarrow> 'a Runner" where
  "on_thrown i l d e s =
     (let taskError = \<lparr>result = Null, error = e,
                        meta = \<lparr>index = i, mlabel = l, duration = d\<rparr>\<rparr>;
          s1 = s\<lparr>failedTasks := failedTasks s @ [taskError]\<rparr>;
          s2 = emit taskFailed taskError s1
      in if length_gt (length (failedTasks s2)) (tolerance s2)
         then (let s3 = s2\<lparr>abort := True\<rparr>
               in reject (completeTasks s3)
                    (ErrorObj (tolerance_message (length (failedTasks s3)))) s3)
         else s2)"

text \<open>The \<open>finally\<close> block.\<close>

definition finally_block :: "'a Runner \<Rightarrow> 'a Runner" where
  "finally_block s =
     (let s1 = s\<lparr>numComplete := numComplete s + 1\<rparr>;
          s2 = s1\<lparr>numActive := numActive s1 - 1\<rparr>
      in if complete s2 \<or> abort s2 then resolve (completeTasks s2) s2
         else runTask s2)"

text \<open>
  The resumption of the \<open>j\<close>-th suspended call of \<open>runTask\<close>, whose promise has settled,
  with \<open>d\<close> the time that has passed since \<open>begin\<close>: the \<open>try\<close> or the \<open>catch\<close> branch, then
  \<open>finally\<close>. Where there is no such call there is nothing to resume.
\<close>

definition resume :: "nat \<Rightarrow> nat \<Rightarrow> 'a Runner \<Rightarrow> 'a Runner" where
  "resume j d s =
     (if length (awaiting s) \<le> j then s
      else
        (let k = awaiting s ! j;
             s0 = s\<lparr>awaiting := take j (awaiting s) @ drop (Suc j) (awaiting s)\<rparr>
         in finally_block
              (case k_awaited k of
                 Fulfilled v \<Rightarrow> on_fulfilled (k_index k) (k_label k) d v s0
               | Thrown e \<Rightarrow> on_thrown (k_index k) (k_label k) d e s0)))"

text \<open>The \<open>for\<close> loop of \<open>runAll\<close>: \<open>n\<close> calls of \<open>runTask\<close>.\<close>

fun spawn :: "nat \<Rightarrow> 'a Runner \<Rightarrow> 'a Runner" where
  "spawn 0 s = s"
| "spawn (Suc n) s = spawn n (runTask s)"

text \<open>\<open>runAll\<close> up to the return of the promise.\<close>

definition runAll :: "'a Runner \<Rightarrow> 'a Runner" where
  "runAll s = spawn (concurrentLimit s) (s\<lparr>numTotal := int (length (queue s))\<rparr>)"

text \<open>A schedule: which suspended call is resumed next, and the duration it measures.\<close>

datatype event = Settle nat nat

fun exec :: "event list \<Rightarrow> 'a Runner \<Rightarrow> 'a Runner" where
  "exec [] s = s"
| "exec (Settle j d # es) s = exec es (resume j d s)"


text \<open>A runner on which no run has started: what the constructor, \<open>add\<close>, \<open>addMany\<close>
  and \<open>on\<close> produce.\<close>

definition fresh :: "'a Runner \<Rightarrow> bool" where
  "fresh s =
     (numActive s = 0 \<and> numComplete s = 0 \<and> \<not> abort s \<and> completeTasks s = [] \<and>
      failedTasks s = [] \<and> awaiting s = [] \<and> settleCalls s = [] \<and> handlerCalls s = [])"

subsection \<open>Invariants of a run\<close>

text \<open>One resumption, for the suspended call \<open>k\<close> taken out of the list: the state at the
  test of the \<open>finally\<close> block, and the whole step.\<close>

definition after_settle :: "'a suspended \<Rightarrow> nat \<Rightarrow> 'a Runner \<Rightarrow> 'a Runner" where
  "after_settle k d s0 =
     (let t = (case k_awaited k of
                 Fulfilled v \<Rightarrow> on_fulfilled (k_index k) (k_label k) d v s0
               | Thrown e \<Rightarrow> on_thrown (k_index k) (k_label k) d e s0)
      in t\<lparr>numComplete := numComplete t + 1, numActive := numActive t - 1\<rparr>)"

definition settle_step :: "'a suspended \<Rightarrow> nat \<Rightarrow> 'a Runner \<Rightarrow> 'a Runner" where
  "settle_step k d s0 =
     (let u = after_settle k d s0
      in if complete u \<or> abort u then resolve (completeTasks u) u else runTask u)"

text \<open>The state in which the loop of \<open>runAll\<close> starts.\<close>

definition start :: "'a Runner \<Rightarrow> 'a Runner" where
  "start s = s\<lparr>numTotal := int (length (queue s))\<rparr>"

text \<open>The counters agree with the lists, and the queue is what is left of the queue
  \<open>q0\<close> of the start after the tasks dequeued so far.\<close>

definition inv_counts :: "'a taskObj list \<Rightarrow> 'a Runner \<Rightarrow> bool" where
  "inv_counts q0 s =
     (numActive s = int (length (awaiting s)) \<and>
      numComplete s = int (length (completeTasks s) + length (failedTasks s)) \<and>
      numTotal s = int (length q0) \<and>
      length (awaiting s) + length (completeTasks s) + length (failedTasks s) \<le> length q0 \<and>
      queue s = drop (length (awaiting s) + length (completeTasks s) + length (failedTasks s)) q0)"

text \<open>The abort flag is set exactly when the failures exceed the tolerance; the first
  settle call of an aborted run is a rejection; a run that is not aborted has made no
  settle call while a task is in flight, and one call of \<open>resolve\<close> afterwards.\<close>

definition inv_settle :: "'a Runner \<Rightarrow> bool" where
  "inv_settle s =
     ((abort s = (failedTasks s \<noteq> [] \<and> length_gt (length (failedTasks s)) (tolerance s))) \<and>
      (abort s \<longrightarrow> (\<exists>rs e cs. settleCalls s = Reject rs e # cs)) \<and>
      (\<not> abort s \<longrightarrow>
         settleCalls s =
           (if awaiting s = [] \<and> 0 < numComplete s then [Resolve (completeTasks s)] else [])))"

text \<open>At most \<open>concurrentLimit\<close> calls are suspended, all workers are busy while the
  queue is not empty and the run is not aborted, and without workers nothing completes.\<close>

definition inv_limit :: "'a Runner \<Rightarrow> bool" where
  "inv_limit s =
     (length (awaiting s) \<le> concurrentLimit s \<and>
      (\<not> abort s \<and> queue s \<noteq> [] \<longrightarrow> length (awaiting s) = concurrentLimit s) \<and>
      (concurrentLimit s = 0 \<longrightarrow> numComplete s = 0))"

text \<open>The indices of the tasks dequeued so far: those in flight, then those of the
  recorded outcomes.\<close>

definition started :: "'a Runner \<Rightarrow> int list" where
  "started s =
     map k_index (awaiting s) @ map (\<lambda>e. index (meta e)) (completeTasks s) @
     map (\<lambda>e. index (meta e)) (failedTasks s)"

text \<open>The task that stood at the \<open>i\<close>-th place of the queue, counted from 1.\<close>

definition task_of :: "'a taskObj list \<Rightarrow> int \<Rightarrow> 'a taskObj" where
  "task_of q0 i = q0 ! nat (i - 1)"

text \<open>The indices in use are \<open>1, \<dots>, n\<close> for the \<open>n\<close> tasks dequeued so far, each once,
  and whatever carries the index \<open>i\<close> belongs to the \<open>i\<close>-th task of the queue.\<close>

definition inv_index :: "'a taskObj list \<Rightarrow> 'a Runner \<Rightarrow> bool" where
  "inv_index q0 s =
     (distinct (started s) \<and> set (started s) = {1..int (length (started s))} \<and>
      (\<forall>k\<in>set (awaiting s).
         k_label k = label (task_of q0 (k_index k)) \<and>
         k_awaited k = cb (task_of q0 (k_index k)) (k_index k) (k_label k)) \<and>
      (\<forall>e\<in>set (completeTasks s).
         mlabel (meta e) = label (task_of q0 (index (meta e))) \<and> error e = Null \<and>
         cb (task_of q0 (index (meta e))) (index (meta e)) (mlabel (meta e)) = Fulfilled (result e)) \<and>
      (\<forall>e\<in>set (failedTasks s).
         mlabel (meta e) = label (task_of q0 (index (meta e))) \<and> result e = Null \<and>
         cb (task_of q0 (index (meta e))) (index (meta e)) (mlabel (meta e)) = Thrown (error e)))"

definition inv_run :: "'a Runner \<Rightarrow> 'a Runner \<Rightarrow> bool" where
  "inv_run r s =
     (inv_counts (queue r) s \<and> inv_settle s \<and> inv_limit s \<and> inv_index (queue r) s \<and>
      concurrentLimit s = concurrentLimit r \<and> tolerance s = tolerance r \<and>
      listeners s = listeners r \<and> verbose s = verbose r)"

subsection \<open>Example runners\<close>

text \<open>Two tasks, one that is fulfilled and one that throws, and a runner built with the
  constructor, \<open>on\<close> and \<open>addMany\<close>: the handler 10 listens to \<open>taskCompleted\<close>, the
  handler 20 to \<open>taskFailed\<close>.\<close>

definition ok_task :: "int \<Rightarrow> string option \<Rightarrow> nat settled" where
  "ok_task i l = Fulfilled (Data 7)"

definition bad_task :: "int \<Rightarrow> string option \<Rightarrow> nat settled" where
  "bad_task i l = Thrown (ErrorObj ''boom'')"

definition example_runner ::
  "nat \<Rightarrow> number \<Rightarrow> (int \<Rightarrow> string option \<Rightarrow> nat settled) list \<Rightarrow> nat Runner" where
  "example_runner limit tol cbs =
     addMany cbs None
       (on taskFailed 20 (on taskCompleted 10
          (fst (new_Runner (Some limit)
                  (Some \<lparr>arg_verbose = Some False, arg_tolerance = Some tol,
                         arg_onTaskComplete = None, arg_onTaskFailed = None\<rparr>)
                  DEFAULT_RUNNER_OPTIONS))))"

text \<open>An empty runner, and the runs used below: tasks 1 and 3 succeed and task 2 fails,
  with two workers and a tolerance of 1; a first task that fails before one that
  succeeds, with one worker and no tolerance; one failing task with a tolerance of 1; two
  failing tasks with two workers and no tolerance; two failures before a success, with
  two workers and a tolerance of 1; one failure before two successes, with two workers
  and no tolerance.\<close>

definition empty_runner :: "nat Runner" where
  "empty_runner = fst (new_Runner None None DEFAULT_RUNNER_OPTIONS)"

definition three_tasks :: "nat Runner" where
  "three_tasks = example_runner 2 (Num 1) [ok_task, bad_task, ok_task]"






text \<open>Three constructions in sequence, starting from the initial contents of
  \<open>DEFAULT_RUNNER_OPTIONS\<close>: with a full options object, without options, and with options
  that leave \<open>tolerance\<close> out.\<close>

definition first_options :: OptionsArg where
  "first_options =
     \<lparr>arg_verbose = Some False, arg_tolerance = Some Infinity,
      arg_onTaskComplete = Some 1, arg_onTaskFailed = None\<rparr>"

definition third_options :: OptionsArg where
  "third_options =
     \<lparr>arg_verbose = Some True, arg_tolerance = None,
      arg_onTaskComplete = None, arg_onTaskFailed = None\<rparr>"

definition first_runner :: "nat Runner \<times> RunnerOptions" where
  "first_runner = new_Runner (Some 5) (Some first_options) DEFAULT_RUNNER_OPTIONS"

definition second_runner :: "nat Runner \<times> RunnerOptions" where
  "second_runner = new_Runner None None (snd first_runner)"

definition third_runner :: "nat Runner \<times> RunnerOptions" where
  "third_runner = new_Runner (Some 3) (Some third_options) (snd first_runner)"

subsection \<open>Schedules and loops\<close>

lemma exec_append: "exec (es @ fs) s = exec fs (exec es s)"
  by (induction es s rule: exec.induct) simp_all

lemma exec_invariant:
  assumes "P s" and "\<And>j d t. P t \<Longrightarrow> P (resume j d t)"
  shows "P (exec es s)"
  using assms(1)
proof (induction es arbitrary: s)
  case Nil
  then show ?case by simp
next
  case (Cons e es)
  then show ?case by (cases e) (simp add: assms(2))
qed

lemma spawn_invariant:
  assumes "P s" and "\<And>t. P t \<Longrightarrow> P (runTask t)"
  shows "P (spawn n s)"
  using assms(1) by (induction n arbitrary: s) (simp_all add: assms(2))

lemma spawn_add: "spawn (m + n) s = spawn n (spawn m s)"
  by (induction m arbitrary: s) simp_all

lemma resume_cases:
  obtains (idle) "length (awaiting s) \<le> j" "resume j d s = s"
  | (settle) pre k post where "awaiting s = pre @ k # post" "length pre = j"
      "resume j d s = settle_step k d (s\<lparr>awaiting := pre @ post\<rparr>)"
proof (cases "length (awaiting s) \<le> j")
  case True
  then show ?thesis using idle by (simp add: resume_def)
next
  case False
  then have j: "j < length (awaiting s)" by simp
  have "awaiting s = take j (awaiting s) @ awaiting s ! j # drop (Suc j) (awaiting s)"
    using j by (rule id_take_nth_drop)
  moreover have "length (take j (awaiting s)) = j" using j by simp
  moreover have "resume j d s =
      settle_step (awaiting s ! j) d (s\<lparr>awaiting := take j (awaiting s) @ drop (Suc j) (awaiting s)\<rparr>)"
    using j by (simp add: resume_def settle_step_def after_settle_def finally_block_def Let_def)
  ultimately show ?thesis using settle by blast
qed

subsection \<open>What one resumption does to the fields\<close>

lemmas settle_defs = after_settle_def on_fulfilled_def on_thrown_def emit_def reject_def Let_def

lemma after_settle_frame:
  "queue (after_settle k d s0) = queue s0"
  "awaiting (after_settle k d s0) = awaiting s0"
  "concurrentLimit (after_settle k d s0) = concurrentLimit s0"
  "tolerance (after_settle k d s0) = tolerance s0"
  "listeners (after_settle k d s0) = listeners s0"
  "verbose (after_settle k d s0) = verbose s0"
  "numTotal (after_settle k d s0) = numTotal s0"
  "numComplete (after_settle k d s0) = numComplete s0 + 1"
  "numActive (after_settle k d s0) = numActive s0 - 1"
  by (auto simp: settle_defs split: settled.splits)

lemma after_settle_lists:
  "length (completeTasks (after_settle k d s0)) + length (failedTasks (after_settle k d s0)) =
     Suc (length (completeTasks s0) + length (failedTasks s0))"
  by (auto simp: settle_defs split: settled.splits)

lemma after_settle_abort: "abort s0 \<Longrightarrow> abort (after_settle k d s0)"
  by (auto simp: settle_defs split: settled.splits)

lemma runTask_frame:
  "concurrentLimit (runTask s) = concurrentLimit s"
  "tolerance (runTask s) = tolerance s"
  "listeners (runTask s) = listeners s"
  "verbose (runTask s) = verbose s"
  "numTotal (runTask s) = numTotal s"
  "numComplete (runTask s) = numComplete s"
  "abort (runTask s) = abort s"
  "completeTasks (runTask s) = completeTasks s"
  "failedTasks (runTask s) = failedTasks s"
  "settleCalls (runTask s) = settleCalls s"
  "handlerCalls (runTask s) = handlerCalls s"
  by (auto simp: runTask_def Let_def split: list.splits)

lemma settle_step_frame:
  "concurrentLimit (settle_step k d s0) = concurrentLimit s0"
  "tolerance (settle_step k d s0) = tolerance s0"
  "listeners (settle_step k d s0) = listeners s0"
  "verbose (settle_step k d s0) = verbose s0"
  "numTotal (settle_step k d s0) = numTotal s0"
  by (simp_all add: settle_step_def Let_def runTask_frame after_settle_frame resolve_def)

subsection \<open>The counters\<close>

lemma drop_Cons_next:
  "drop n xs = y # ys \<Longrightarrow> drop (Suc n) xs = ys \<and> n < length xs \<and> xs ! n = y"
  by (metis Cons_nth_drop_Suc drop_all list.distinct(1) list.inject not_le)

lemma int_length_sum_0 [simp]:
  "(int (length xs) + int (length ys) = 0) = (xs = [] \<and> ys = [])"
  by (cases xs; cases ys) auto

lemma inv_counts_runTask: "inv_counts q0 s \<Longrightarrow> inv_counts q0 (runTask s)"
  by (auto simp: inv_counts_def runTask_def Let_def split: list.splits dest!: drop_Cons_next)

lemma inv_counts_after_settle:
  assumes "inv_counts q0 s" "awaiting s = pre @ k # post"
  shows "inv_counts q0 (after_settle k d (s\<lparr>awaiting := pre @ post\<rparr>))"
  using assms by (auto simp: inv_counts_def settle_defs split: settled.splits)

lemma inv_counts_resolve: "inv_counts q0 u \<Longrightarrow> inv_counts q0 (resolve rs u)"
  by (simp add: inv_counts_def resolve_def)

lemma inv_counts_settle_step:
  assumes "inv_counts q0 s" "awaiting s = pre @ k # post"
  shows "inv_counts q0 (settle_step k d (s\<lparr>awaiting := pre @ post\<rparr>))"
  using inv_counts_after_settle [OF assms]
  by (simp add: settle_step_def Let_def inv_counts_runTask inv_counts_resolve)

subsection \<open>The abort flag and the promise\<close>

lemma length_gt_Suc: "length_gt n t \<Longrightarrow> length_gt (Suc n) t"
  by (cases t) auto

lemma inv_settle_runTask:
  "inv_settle s \<Longrightarrow> awaiting s \<noteq> [] \<or> numComplete s = 0 \<Longrightarrow> inv_settle (runTask s)"
  by (auto simp: inv_settle_def runTask_def Let_def split: list.splits)

lemma inv_settle_settle_step:
  assumes "inv_settle s" "inv_counts q0 s" "awaiting s = pre @ k # post"
  shows "inv_settle (settle_step k d (s\<lparr>awaiting := pre @ post\<rparr>))"
proof -
  define u where "u = after_settle k d (s\<lparr>awaiting := pre @ post\<rparr>)"
  have step: "settle_step k d (s\<lparr>awaiting := pre @ post\<rparr>) =
      (if complete u \<or> abort u then resolve (completeTasks u) u else runTask u)"
    by (simp add: settle_step_def u_def Let_def)
  have na: "(numActive u = 0) = (pre = [] \<and> post = [])" "0 < numComplete u"
    "awaiting u = pre @ post"
    using assms(2,3) unfolding u_def
    by (auto simp: inv_counts_def after_settle_frame)
  have ab: "abort u = (failedTasks u \<noteq> [] \<and> length_gt (length (failedTasks u)) (tolerance u))"
    using assms(1) unfolding u_def
    by (auto simp: inv_settle_def settle_defs length_gt_Suc split: settled.splits)
  have rej: "abort u \<Longrightarrow> \<exists>rs e cs. settleCalls u = Reject rs e # cs"
    using assms(1,3) unfolding u_def
    by (auto simp: inv_settle_def settle_defs split: settled.splits if_splits)
  have pend: "\<not> abort u \<Longrightarrow> settleCalls u = []"
    using assms(1,3) unfolding u_def
    by (auto simp: inv_settle_def settle_defs split: settled.splits if_splits)
  show ?thesis
  proof (cases "complete u \<or> abort u")
    case True
    then show ?thesis using step na ab rej pend
      by (auto simp: inv_settle_def resolve_def complete_def)
  next
    case False
    then have "\<not> abort u" "queue u \<noteq> [] \<or> pre @ post \<noteq> []"
      using na by (auto simp: complete_def)
    then show ?thesis using step False na ab pend
      by (auto simp: inv_settle_def runTask_def Let_def split: list.splits)
  qed
qed

subsection \<open>The worker pool\<close>

lemma inv_limit_settle_step:
  assumes "inv_limit s" "awaiting s = pre @ k # post"
  shows "inv_limit (settle_step k d (s\<lparr>awaiting := pre @ post\<rparr>))"
proof -
  define u where "u = after_settle k d (s\<lparr>awaiting := pre @ post\<rparr>)"
  have step: "settle_step k d (s\<lparr>awaiting := pre @ post\<rparr>) =
      (if complete u \<or> abort u then resolve (completeTasks u) u else runTask u)"
    by (simp add: settle_step_def u_def Let_def)
  have u: "awaiting u = pre @ post" "queue u = queue s" "concurrentLimit u = concurrentLimit s"
    "\<not> abort u \<Longrightarrow> \<not> abort s" "0 < concurrentLimit s"
    unfolding u_def using after_settle_abort [of "s\<lparr>awaiting := pre @ post\<rparr>" k d] assms
    by (auto simp: after_settle_frame inv_limit_def)
  show ?thesis
  proof (cases "complete u \<or> abort u")
    case True
    then show ?thesis using step u assms
      by (auto simp: inv_limit_def resolve_def complete_def)
  next
    case False
    then show ?thesis using step u assms
      by (auto simp: inv_limit_def runTask_def Let_def split: list.splits)
  qed
qed

lemma spawn_not_aborted:
  "\<not> abort s \<Longrightarrow>
     length (awaiting (spawn n s)) = length (awaiting s) + min n (length (queue s)) \<and>
     queue (spawn n s) = drop n (queue s) \<and> \<not> abort (spawn n s)"
proof (induction n arbitrary: s)
  case 0
  then show ?case by simp
next
  case (Suc n)
  show ?case
  proof (cases "queue s")
    case Nil
    then have "runTask s = s" by (simp add: runTask_def)
    then show ?thesis using Suc.IH [of s] Suc.prems Nil by simp
  next
    case (Cons t rest)
    then have "\<not> abort (runTask s)" "queue (runTask s) = rest"
      "length (awaiting (runTask s)) = Suc (length (awaiting s))"
      using Suc.prems by (simp_all add: runTask_def Let_def)
    then show ?thesis using Suc.IH [of "runTask s"] Cons by simp
  qed
qed

subsection \<open>The indices\<close>

lemma atLeastAtMost_int_Suc: "{1..1 + int n} = insert (1 + int n) {1..int n}"
  by auto

lemma inv_index_runTask:
  assumes "inv_index q0 s" "inv_counts q0 s"
  shows "inv_index q0 (runTask s)"
proof (cases "abort s \<or> queue s = []")
  case True
  then show ?thesis using assms(1) by (auto simp: runTask_def)
next
  case False
  then obtain t rest where q: "queue s = t # rest" by (cases "queue s") auto
  define n where "n = length (awaiting s) + length (completeTasks s) + length (failedTasks s)"
  have n: "length (started s) = n" by (simp add: started_def n_def)
  have "drop n q0 = t # rest" using assms(2) q by (simp add: inv_counts_def n_def)
  then have t: "q0 ! n = t" by (simp add: drop_Cons_next)
  have i: "numActive s + 1 + numComplete s = 1 + int n"
    using assms(2) by (simp add: inv_counts_def n_def)
  have r: "runTask s = s\<lparr>queue := rest, numActive := numActive s + 1,
             awaiting := awaiting s @ [\<lparr>k_index = 1 + int n, k_label = label t,
                    k_awaited = cb t (1 + int n) (label t)\<rparr>]\<rparr>"
    using False q by (simp add: runTask_def Let_def i)
  have notin: "1 + int n \<notin> set (started s)"
    using assms(1) n by (simp add: inv_index_def)
  have st: "set (started (runTask s)) = insert (1 + int n) (set (started s))"
           "length (started (runTask s)) = Suc n"
           "distinct (started (runTask s)) = (1 + int n \<notin> set (started s) \<and> distinct (started s))"
    unfolding r using n by (auto simp: started_def)
  have tk: "task_of q0 (1 + int n) = t" using t by (simp add: task_of_def)
  have 1: "distinct (started (runTask s))"
    using st(3) notin assms(1) by (simp add: inv_index_def)
  have 2: "set (started (runTask s)) = {1..int (length (started (runTask s)))}"
    using st(1,2) assms(1) n by (simp add: inv_index_def atLeastAtMost_int_Suc)
  have 3: "\<forall>k\<in>set (awaiting (runTask s)).
         k_label k = label (task_of q0 (k_index k)) \<and>
         k_awaited k = cb (task_of q0 (k_index k)) (k_index k) (k_label k)"
    using assms(1) tk by (auto simp: inv_index_def r)
  have 4: "completeTasks (runTask s) = completeTasks s" "failedTasks (runTask s) = failedTasks s"
    by (simp_all add: r)
  show ?thesis
    using 1 2 3 assms(1) unfolding inv_index_def 4 by blast
qed

lemma inv_index_after_settle:
  assumes "inv_index q0 s" "awaiting s = pre @ k # post"
  shows "inv_index q0 (after_settle k d (s\<lparr>awaiting := pre @ post\<rparr>))"
proof -
  define u where "u = after_settle k d (s\<lparr>awaiting := pre @ post\<rparr>)"
  have k: "k_label k = label (task_of q0 (k_index k))"
    "k_awaited k = cb (task_of q0 (k_index k)) (k_index k) (k_label k)"
    using assms by (simp_all add: inv_index_def)
  have st: "set (started u) = set (started s)" "length (started u) = length (started s)"
    "distinct (started u) = distinct (started s)"
    unfolding u_def using assms(2)
    by (auto simp: started_def settle_defs split: settled.splits)
  have aw: "set (awaiting u) \<subseteq> set (awaiting s)"
    unfolding u_def using assms(2) by (auto simp: after_settle_frame)
  have co: "\<forall>e\<in>set (completeTasks u).
         mlabel (meta e) = label (task_of q0 (index (meta e))) \<and> error e = Null \<and>
         cb (task_of q0 (index (meta e))) (index (meta e)) (mlabel (meta e)) = Fulfilled (result e)"
    using assms(1) k unfolding u_def
    by (auto simp: inv_index_def settle_defs split: settled.splits)
  have fa: "\<forall>e\<in>set (failedTasks u).
         mlabel (meta e) = label (task_of q0 (index (meta e))) \<and> result e = Null \<and>
         cb (task_of q0 (index (meta e))) (index (meta e)) (mlabel (meta e)) = Thrown (error e)"
    using assms(1) k unfolding u_def
    by (auto simp: inv_index_def settle_defs split: settled.splits)
  have "inv_index q0 u"
    unfolding inv_index_def st using assms(1) aw co fa unfolding inv_index_def by blast
  then show ?thesis by (simp add: u_def)
qed

lemma resolve_frame:
  "awaiting (resolve rs u) = awaiting u" "completeTasks (resolve rs u) = completeTasks u"
  "failedTasks (resolve rs u) = failedTasks u" "started (resolve rs u) = started u"
  by (simp_all add: resolve_def started_def)

lemma inv_index_resolve: "inv_index q0 u \<Longrightarrow> inv_index q0 (resolve rs u)"
  unfolding inv_index_def resolve_frame .

lemma inv_index_settle_step:
  assumes "inv_index q0 s" "inv_counts q0 s" "awaiting s = pre @ k # post"
  shows "inv_index q0 (settle_step k d (s\<lparr>awaiting := pre @ post\<rparr>))"
  using inv_index_after_settle [OF assms(1,3)] inv_counts_after_settle [OF assms(2,3)]
  by (simp add: settle_step_def Let_def inv_index_runTask inv_index_resolve)

subsection \<open>Every state of a run satisfies the invariants\<close>

lemma inv_run_resume:
  assumes "inv_run r s"
  shows "inv_run r (resume j d s)"
proof (rule resume_cases [where s = s and j = j and d = d])
  assume "resume j d s = s"
  then show ?thesis using assms by simp
next
  fix pre k post
  assume aw: "awaiting s = pre @ k # post"
    and step: "resume j d s = settle_step k d (s\<lparr>awaiting := pre @ post\<rparr>)"
  have c: "inv_counts (queue r) s" and p: "inv_settle s" and l: "inv_limit s"
    and i: "inv_index (queue r) s"
    using assms by (simp_all add: inv_run_def)
  show ?thesis
    unfolding step inv_run_def
    using assms inv_counts_settle_step [OF c aw] inv_settle_settle_step [OF p c aw]
      inv_limit_settle_step [OF l aw] inv_index_settle_step [OF i c aw]
    by (simp add: inv_run_def settle_step_frame)
qed

lemma fresh_start:
  assumes "fresh r"
  shows "inv_counts (queue r) (start r)" "inv_settle (start r)"
    "inv_index (queue r) (start r)" "numComplete (start r) = 0" "\<not> abort (start r)"
    "awaiting (start r) = []" "queue (start r) = queue r"
  using assms by (simp_all add: fresh_def start_def inv_counts_def inv_settle_def inv_index_def started_def)

lemma inv_run_spawn:
  assumes "fresh r"
  shows "inv_counts (queue r) (spawn n (start r))"
    and "inv_settle (spawn n (start r))"
    and "inv_index (queue r) (spawn n (start r))"
    and "numComplete (spawn n (start r)) = 0"
    and "concurrentLimit (spawn n (start r)) = concurrentLimit r"
    and "tolerance (spawn n (start r)) = tolerance r"
    and "listeners (spawn n (start r)) = listeners r"
    and "verbose (spawn n (start r)) = verbose r"
    and "length (awaiting (spawn n (start r))) = min n (length (queue r))"
    and "queue (spawn n (start r)) = drop n (queue r)"
    and "\<not> abort (spawn n (start r))"
proof -
  note st = fresh_start [OF assms]
  show "inv_counts (queue r) (spawn n (start r))"
    by (rule spawn_invariant) (simp_all add: st inv_counts_runTask)
  have "inv_settle (spawn n (start r)) \<and> numComplete (spawn n (start r)) = 0"
    by (rule spawn_invariant) (simp_all add: st inv_settle_runTask runTask_frame)
  then show "inv_settle (spawn n (start r))" "numComplete (spawn n (start r)) = 0"
    by simp_all
  have "inv_index (queue r) (spawn n (start r)) \<and> inv_counts (queue r) (spawn n (start r))"
    by (rule spawn_invariant) (simp_all add: st inv_index_runTask inv_counts_runTask)
  then show "inv_index (queue r) (spawn n (start r))" by simp
  show "concurrentLimit (spawn n (start r)) = concurrentLimit r"
    by (rule spawn_invariant) (simp_all add: runTask_frame start_def)
  show "tolerance (spawn n (start r)) = tolerance r"
    by (rule spawn_invariant) (simp_all add: runTask_frame start_def)
  show "listeners (spawn n (start r)) = listeners r"
    by (rule spawn_invariant) (simp_all add: runTask_frame start_def)
  show "verbose (spawn n (start r)) = verbose r"
    by (rule spawn_invariant) (simp_all add: runTask_frame start_def)
  show "length (awaiting (spawn n (start r))) = min n (length (queue r))"
    "queue (spawn n (start r)) = drop n (queue r)" "\<not> abort (spawn n (start r))"
    using spawn_not_aborted [of "start r" n] st by simp_all
qed

lemma runAll_start: "runAll r = spawn (concurrentLimit r) (start r)"
  by (simp add: runAll_def start_def)

lemma inv_run_runAll:
  assumes "fresh r"
  shows "inv_run r (runAll r)"
  unfolding inv_run_def runAll_start
  using inv_run_spawn [OF assms, of "concurrentLimit r"]
  by (auto simp: inv_limit_def)

lemma inv_run_exec:
  assumes "fresh r"
  shows "inv_run r (exec es (runAll r))"
  by (rule exec_invariant) (simp_all add: inv_run_runAll [OF assms] inv_run_resume)

lemma exec_idle: "awaiting s = [] \<Longrightarrow> exec es s = s"
proof (induction es)
  case Nil
  then show ?case by simp
next
  case (Cons e es)
  then show ?case by (cases e) (simp add: resume_def)
qed

subsection \<open>Evaluating example runs\<close>

lemmas run_defs = example_runner_def ok_task_def bad_task_def new_Runner_def Object_assign_def
  DEFAULT_RUNNER_OPTIONS_def add_def addMany_def label_at_def on_def runAll_def runTask_def
  resume_def finally_block_def on_fulfilled_def on_thrown_def emit_def emitted_def invoke_def
  isCompletedEvent_def isFailedEvent_def complete_def resolve_def reject_def Let_def
  tolerance_message_def promise_def fresh_def start_def

section \<open>The claims\<close>

subsection \<open>The counters and the worker pool\<close>

lemma inv_runD:
  assumes "inv_run r s"
  shows "inv_counts (queue r) s" "inv_settle s" "inv_limit s" "inv_index (queue r) s"
    "concurrentLimit s = concurrentLimit r" "tolerance s = tolerance r"
    "listeners s = listeners r" "verbose s = verbose r"
  using assms by (simp_all add: inv_run_def)

lemma inv_counts_sum:
  assumes "inv_counts q0 s"
  shows "numActive s + numComplete s + int (length (queue s)) = numTotal s"
    and "numTotal s = int (length q0)"
    and "numActive s = int (length (awaiting s))"
  using assms by (auto simp: inv_counts_def)

text \<open>
  Claim C7. At every point of a run the counters satisfy
  \<open>numActive + numComplete + len(queue) = numTotal\<close>, where \<open>numTotal\<close> is the length the
  queue had when the run started. It holds after any number of iterations of the loop
  that starts the workers and after any schedule of resumptions, also in an aborted run.
  The counters and the queue change in two places only, \<open>queue.shift()\<close> with
  \<open>#numActive++\<close> in \<open>runTask\<close> and \<open>#numComplete++\<close> with \<open>#numActive--\<close> in the
  \<open>finally\<close> block, and no task, handler or other worker runs inside either, so the
  states of the model are all the points at which the counters can be looked at.
\<close>

theorem counters_account_for_every_task:
  assumes "fresh r"
  shows "numActive (spawn n (start r)) + numComplete (spawn n (start r)) +
           int (length (queue (spawn n (start r)))) = numTotal (spawn n (start r)) \<and>
         numTotal (spawn n (start r)) = int (length (queue r)) \<and>
         numActive (exec es (runAll r)) + numComplete (exec es (runAll r)) +
           int (length (queue (exec es (runAll r)))) = numTotal (exec es (runAll r)) \<and>
         numTotal (exec es (runAll r)) = int (length (queue r))"
proof -
  have a: "inv_counts (queue r) (spawn n (start r))"
    using assms by (rule inv_run_spawn)
  have b: "inv_counts (queue r) (exec es (runAll r))"
    using inv_run_exec [OF assms, of es] by (rule inv_runD)
  show ?thesis
    using inv_counts_sum(1,2) [OF a] inv_counts_sum(1,2) [OF b] by simp
qed

theorem counters_account_for_every_task_witness:
  "fresh (example_runner 2 (Num 0) [ok_task, bad_task, ok_task]) \<and>
   numActive (exec [Settle 1 3] (runAll (example_runner 2 (Num 0) [ok_task, bad_task, ok_task]))) +
   numComplete (exec [Settle 1 3] (runAll (example_runner 2 (Num 0) [ok_task, bad_task, ok_task]))) +
   int (length (queue (exec [Settle 1 3] (runAll (example_runner 2 (Num 0) [ok_task, bad_task, ok_task]))))) = 3 \<and>
   abort (exec [Settle 1 3] (runAll (example_runner 2 (Num 0) [ok_task, bad_task, ok_task])))"
proof -
  have f: "fresh (example_runner 2 (Num 0) [ok_task, bad_task, ok_task])"
    by (simp add: run_defs)
  have "abort (exec [Settle 1 3] (runAll (example_runner 2 (Num 0) [ok_task, bad_task, ok_task])))"
    by (simp add: run_defs numeral_2_eq_2)
  moreover have "length (queue (example_runner 2 (Num 0) [ok_task, bad_task, ok_task])) = 3"
    by (simp add: run_defs)
  ultimately show ?thesis
    using f counters_account_for_every_task [OF f, of 0 "[Settle 1 3]"] by simp
qed

text \<open>
  Claim C8. At every instant of a run the number of active tasks (dequeued, not yet
  settled) is at most \<open>concurrentLimit\<close>: \<open>numActive\<close> is the number of suspended calls
  of \<open>runTask\<close>, and it stays within the limit during the loop that starts the workers
  and after any schedule of resumptions.
\<close>

theorem numActive_within_concurrentLimit:
  assumes "fresh r"
  shows "(n \<le> concurrentLimit r \<longrightarrow> numActive (spawn n (start r)) \<le> int (concurrentLimit r)) \<and>
         numActive (exec es (runAll r)) = int (length (awaiting (exec es (runAll r)))) \<and>
         numActive (exec es (runAll r)) \<le> int (concurrentLimit r)"
proof -
  have "inv_counts (queue r) (spawn n (start r))"
    "length (awaiting (spawn n (start r))) = min n (length (queue r))"
    using assms by (rule inv_run_spawn)+
  then have "n \<le> concurrentLimit r \<longrightarrow> numActive (spawn n (start r)) \<le> int (concurrentLimit r)"
    by (auto simp: inv_counts_sum(3))
  moreover have i: "inv_run r (exec es (runAll r))"
    using assms by (rule inv_run_exec)
  have "numActive (exec es (runAll r)) = int (length (awaiting (exec es (runAll r))))"
    using inv_runD(1) [OF i] by (rule inv_counts_sum(3))
  moreover have "length (awaiting (exec es (runAll r))) \<le> concurrentLimit r"
    using inv_runD(3,5) [OF i] by (simp add: inv_limit_def)
  ultimately show ?thesis by simp
qed

theorem numActive_within_concurrentLimit_witness:
  "fresh (example_runner 2 (Num 1) [ok_task, bad_task, ok_task]) \<and>
   (2::nat) \<le> concurrentLimit (example_runner 2 (Num 1) [ok_task, bad_task, ok_task]) \<and>
   numActive (spawn 2 (start (example_runner 2 (Num 1) [ok_task, bad_task, ok_task]))) = 2 \<and>
   numActive (exec [Settle 1 3] (runAll (example_runner 2 (Num 1) [ok_task, bad_task, ok_task]))) = 2 \<and>
   numActive (exec [Settle 1 3] (runAll (example_runner 2 (Num 1) [ok_task, bad_task, ok_task])))
     \<le> int (concurrentLimit (example_runner 2 (Num 1) [ok_task, bad_task, ok_task]))"
proof -
  have f: "fresh (example_runner 2 (Num 1) [ok_task, bad_task, ok_task])"
    by (simp add: run_defs)
  have "numActive (spawn 2 (start (example_runner 2 (Num 1) [ok_task, bad_task, ok_task]))) = 2"
    "numActive (exec [Settle 1 3] (runAll (example_runner 2 (Num 1) [ok_task, bad_task, ok_task]))) = 2"
    "concurrentLimit (example_runner 2 (Num 1) [ok_task, bad_task, ok_task]) = 2"
    by (simp_all add: run_defs numeral_2_eq_2)
  then show ?thesis
    using f numActive_within_concurrentLimit [OF f, of 2 "[Settle 1 3]"] by simp
qed

subsection \<open>Event dispatch and the empty queue\<close>

lemma spawn_idle: "queue s = [] \<Longrightarrow> spawn n s = s"
  by (induction n) (simp_all add: runTask_def)

lemma emitted_to_completed:
  "concat (map (\<lambda>i. invoke hs i e) [0..<n]) = map (\<lambda>h. (h, e)) (take n hs)"
proof (induction n)
  case 0
  then show ?case by simp
next
  case (Suc n)
  show ?case
  proof (cases "n < length hs")
    case True
    then show ?thesis using Suc by (simp add: invoke_def take_Suc_conv_app_nth)
  next
    case False
    then show ?thesis using Suc by (simp add: invoke_def)
  qed
qed

text \<open>
  Claim C2. Every \<open>taskFailed\<close> handler receives each Failure outcome and no
  \<open>taskCompleted\<close> handler does. The code does otherwise: an outcome built by the
  \<open>catch\<close> block has \<open>result: null\<close>, so \<open>#isFailedEvent\<close>, which tests \<open>e.result\<close>, is
  false for it, and \<open>#emit('taskFailed', e)\<close> calls the first handlers of \<open>taskCompleted\<close>,
  as many as there are \<open>taskFailed\<close> handlers. In the run of one failing task with the
  handler 10 on \<open>taskCompleted\<close> and the handler 20 on \<open>taskFailed\<close>, the only call is
  that of the handler 10 with the Failure outcome.
\<close>

theorem failure_dispatched_to_taskCompleted_handlers:
  "emitted ls taskFailed \<lparr>result = Null, error = x, meta = m\<rparr> =
     map (\<lambda>h. (h, \<lparr>result = Null, error = x, meta = m\<rparr>))
       (take (length (ls taskFailed)) (ls taskCompleted)) \<and>
   listeners (example_runner 1 Infinity [bad_task]) taskCompleted = [10] \<and>
   listeners (example_runner 1 Infinity [bad_task]) taskFailed = [20] \<and>
   handlerCalls (exec [Settle 0 3] (runAll (example_runner 1 Infinity [bad_task]))) =
     [(10, \<lparr>result = Null, error = ErrorObj ''boom'',
            meta = \<lparr>index = 1, mlabel = None, duration = 3\<rparr>\<rparr>)]"
proof -
  have "emitted ls taskFailed \<lparr>result = Null, error = x, meta = m\<rparr> =
     map (\<lambda>h. (h, \<lparr>result = Null, error = x, meta = m\<rparr>))
       (take (length (ls taskFailed)) (ls taskCompleted))"
    by (simp add: emitted_def isCompletedEvent_def isFailedEvent_def emitted_to_completed)
  moreover have "listeners (example_runner 1 Infinity [bad_task]) taskCompleted = [10]"
    "listeners (example_runner 1 Infinity [bad_task]) taskFailed = [20]"
    by (simp_all add: run_defs)
  moreover have "handlerCalls (exec [Settle 0 3] (runAll (example_runner 1 Infinity [bad_task]))) =
     [(10, \<lparr>result = Null, error = ErrorObj ''boom'',
            meta = \<lparr>index = 1, mlabel = None, duration = 3\<rparr>\<rparr>)]"
    by (simp add: run_defs)
  ultimately show ?thesis by simp
qed

text \<open>
  Claim C3. \<open>runAll\<close> on an empty queue resolves at once with an empty list of results.
  The code does otherwise: each of the calls of \<open>runTask\<close> returns at \<open>if (!taskObj) return\<close>,
  no task is dequeued, and neither \<open>resolve\<close> nor \<open>reject\<close> is ever called, the only call
  of \<open>resolve\<close> being in the \<open>finally\<close> block of a task that ran. The promise of a runner
  that was constructed and given no task stays pending under every schedule, although
  the getter \<open>complete\<close> is true.
\<close>

theorem runAll_on_empty_queue_never_settles:
  "queue empty_runner = [] \<and> concurrentLimit empty_runner = 5 \<and>
   complete (runAll empty_runner) \<and>
   awaiting (exec es (runAll empty_runner)) = [] \<and>
   settleCalls (exec es (runAll empty_runner)) = [] \<and>
   promise (exec es (runAll empty_runner)) = Pending"
proof -
  have q: "queue empty_runner = []" "concurrentLimit empty_runner = 5"
    "awaiting empty_runner = []" "settleCalls empty_runner = []" "numActive empty_runner = 0"
    by (simp_all add: empty_runner_def run_defs)
  have "runAll empty_runner = start empty_runner"
    by (simp add: runAll_start spawn_idle start_def q)
  then have r: "awaiting (runAll empty_runner) = []" "settleCalls (runAll empty_runner) = []"
    "complete (runAll empty_runner)"
    by (simp_all add: start_def q complete_def)
  then show ?thesis
    by (simp add: exec_idle promise_def q)
qed

subsection \<open>The shared default options\<close>

lemma Object_assign_fields:
  "Object_assign d None = d"
  "opt_tolerance (Object_assign d (Some a)) =
     (case arg_tolerance a of None \<Rightarrow> opt_tolerance d | Some t \<Rightarrow> t)"
  "opt_verbose (Object_assign d (Some a)) =
     (case arg_verbose a of None \<Rightarrow> opt_verbose d | Some v \<Rightarrow> v)"
  "opt_onTaskComplete (Object_assign d (Some a)) =
     (case arg_onTaskComplete a of None \<Rightarrow> opt_onTaskComplete d | Some h \<Rightarrow> Some h)"
  "opt_onTaskFailed (Object_assign d (Some a)) =
     (case arg_onTaskFailed a of None \<Rightarrow> opt_onTaskFailed d | Some h \<Rightarrow> Some h)"
  by (simp_all add: Object_assign_def)

lemma new_Runner_fields:
  "snd (new_Runner l os d) = Object_assign d os"
  "tolerance (fst (new_Runner l os d)) = opt_tolerance (Object_assign d os)"
  "verbose (fst (new_Runner l os d)) = opt_verbose (Object_assign d os)"
  "listeners (fst (new_Runner l os d)) taskCompleted =
     (case opt_onTaskComplete (Object_assign d os) of None \<Rightarrow> [] | Some h \<Rightarrow> [h])"
  "listeners (fst (new_Runner l os d)) taskFailed =
     (case opt_onTaskFailed (Object_assign d os) of None \<Rightarrow> [] | Some h \<Rightarrow> [h])"
  by (simp_all add: new_Runner_def Let_def on_def split: option.splits)

lemma listeners_eqI:
  "ls taskCompleted = ms taskCompleted \<Longrightarrow> ls taskFailed = ms taskFailed \<Longrightarrow> ls = ms"
proof
  fix ev :: EventName
  assume "ls taskCompleted = ms taskCompleted" "ls taskFailed = ms taskFailed"
  then show "ls ev = ms ev" by (cases ev) simp_all
qed

text \<open>
  Claim C10. The constructor merges \<open>options\<close> into the shared object
  \<open>DEFAULT_RUNNER_OPTIONS\<close> itself, so the object keeps the values of the first
  construction. A runner constructed afterwards without options has the tolerance, the
  verbosity and the option handlers of the first runner; constructed with an options
  object that leaves a property out, it has the first runner's value for that property.
\<close>

theorem constructor_mutates_shared_defaults:
  fixes r1 r2 r3 :: "'a Runner"
  assumes "new_Runner l1 (Some o1) d0 = (r1, d1)"
    and "new_Runner l2 None d1 = (r2, d2)"
    and "new_Runner l3 (Some o3) d1 = (r3, d3)"
  shows "d1 = Object_assign d0 (Some o1) \<and>
         (\<forall>t. arg_tolerance o1 = Some t \<longrightarrow> opt_tolerance d1 = t \<and> tolerance r1 = t) \<and>
         (\<forall>v. arg_verbose o1 = Some v \<longrightarrow> opt_verbose d1 = v \<and> verbose r1 = v) \<and>
         d2 = d1 \<and> tolerance r2 = tolerance r1 \<and> verbose r2 = verbose r1 \<and>
         listeners r2 = listeners r1 \<and>
         (arg_tolerance o3 = None \<longrightarrow> tolerance r3 = tolerance r1) \<and>
         (arg_verbose o3 = None \<longrightarrow> verbose r3 = verbose r1) \<and>
         (arg_onTaskComplete o3 = None \<longrightarrow> listeners r3 taskCompleted = listeners r1 taskCompleted) \<and>
         (arg_onTaskFailed o3 = None \<longrightarrow> listeners r3 taskFailed = listeners r1 taskFailed)"
proof -
  have r1: "r1 = fst (new_Runner l1 (Some o1) d0)" and d1: "d1 = Object_assign d0 (Some o1)"
    using assms(1) new_Runner_fields(1) [of l1 "Some o1" d0, where 'a = 'a] by simp_all
  have r2: "r2 = fst (new_Runner l2 None d1)" and d2: "d2 = d1"
    using assms(2) new_Runner_fields(1) [of l2 None d1, where 'a = 'a]
    by (simp_all add: Object_assign_fields(1))
  have r3: "r3 = fst (new_Runner l3 (Some o3) d1)"
    using assms(3) by simp
  have "listeners r2 = listeners r1"
    by (rule listeners_eqI) (simp_all add: r1 r2 d1 new_Runner_fields Object_assign_fields(1))
  moreover have "tolerance r2 = tolerance r1" "verbose r2 = verbose r1"
    by (simp_all add: r1 r2 d1 new_Runner_fields Object_assign_fields(1))
  moreover have "\<forall>t. arg_tolerance o1 = Some t \<longrightarrow> opt_tolerance d1 = t \<and> tolerance r1 = t"
    "\<forall>v. arg_verbose o1 = Some v \<longrightarrow> opt_verbose d1 = v \<and> verbose r1 = v"
    by (simp_all add: r1 d1 new_Runner_fields Object_assign_fields)
  moreover have "arg_tolerance o3 = None \<longrightarrow> tolerance r3 = tolerance r1"
    "arg_verbose o3 = None \<longrightarrow> verbose r3 = verbose r1"
    "arg_onTaskComplete o3 = None \<longrightarrow> listeners r3 taskCompleted = listeners r1 taskCompleted"
    "arg_onTaskFailed o3 = None \<longrightarrow> listeners r3 taskFailed = listeners r1 taskFailed"
    by (simp_all add: r1 r3 d1 new_Runner_fields Object_assign_fields)
  ultimately show ?thesis using d1 d2 by blast
qed

theorem constructor_mutates_shared_defaults_witness:
  "new_Runner (Some 5) (Some first_options) DEFAULT_RUNNER_OPTIONS =
     (fst first_runner, snd first_runner) \<and>
   new_Runner None None (snd first_runner) = (fst second_runner, snd second_runner) \<and>
   new_Runner (Some 3) (Some third_options) (snd first_runner) = (fst third_runner, snd third_runner) \<and>
   tolerance (fst (new_Runner None None DEFAULT_RUNNER_OPTIONS :: nat Runner \<times> RunnerOptions)) = Num 0 \<and>
   verbose (fst (new_Runner None None DEFAULT_RUNNER_OPTIONS :: nat Runner \<times> RunnerOptions)) \<and>
   tolerance (fst second_runner) = Infinity \<and> \<not> verbose (fst second_runner) \<and>
   listeners (fst second_runner) taskCompleted = [1] \<and>
   arg_tolerance third_options = None \<and>
   tolerance (fst third_runner) = Infinity \<and> verbose (fst third_runner)"
proof -
  have 1: "new_Runner (Some 5) (Some first_options) DEFAULT_RUNNER_OPTIONS =
     (fst first_runner, snd first_runner)"
    by (simp add: first_runner_def)
  have 2: "new_Runner None None (snd first_runner) = (fst second_runner, snd second_runner)"
    by (simp add: second_runner_def)
  have 3: "new_Runner (Some 3) (Some third_options) (snd first_runner) =
     (fst third_runner, snd third_runner)"
    by (simp add: third_runner_def)
  have o: "arg_tolerance first_options = Some Infinity" "arg_verbose first_options = Some False"
    "arg_tolerance third_options = None"
    by (simp_all add: first_options_def third_options_def)
  have l: "listeners (fst first_runner) taskCompleted = [1]"
    by (simp add: first_runner_def first_options_def new_Runner_fields Object_assign_fields
        DEFAULT_RUNNER_OPTIONS_def)
  have v: "verbose (fst third_runner)"
    by (simp add: third_runner_def third_options_def new_Runner_fields Object_assign_fields)
  have d: "tolerance (fst (new_Runner None None DEFAULT_RUNNER_OPTIONS :: nat Runner \<times> RunnerOptions)) = Num 0"
    "verbose (fst (new_Runner None None DEFAULT_RUNNER_OPTIONS :: nat Runner \<times> RunnerOptions))"
    by (simp_all add: new_Runner_fields Object_assign_fields DEFAULT_RUNNER_OPTIONS_def)
  from constructor_mutates_shared_defaults [OF 1 2 3] o
  have "tolerance (fst second_runner) = Infinity" "\<not> verbose (fst second_runner)"
    "listeners (fst second_runner) = listeners (fst first_runner)"
    "tolerance (fst third_runner) = Infinity"
    by auto
  then show ?thesis using 1 2 3 o l v d by simp
qed

subsection \<open>The index of a task\<close>

lemma resume_records:
  assumes "j < length (awaiting t)"
  shows "k_awaited (awaiting t ! j) = Fulfilled v \<Longrightarrow>
           completeTasks (resume j d t) = completeTasks t @
             [\<lparr>result = v, error = Null,
               meta = \<lparr>index = k_index (awaiting t ! j), mlabel = k_label (awaiting t ! j),
                       duration = d\<rparr>\<rparr>] \<and>
           failedTasks (resume j d t) = failedTasks t \<and>
           handlerCalls (resume j d t) = handlerCalls t @
             emitted (listeners t) taskCompleted
               \<lparr>result = v, error = Null,
                meta = \<lparr>index = k_index (awaiting t ! j), mlabel = k_label (awaiting t ! j),
                        duration = d\<rparr>\<rparr>"
    and "k_awaited (awaiting t ! j) = Thrown e \<Longrightarrow>
           failedTasks (resume j d t) = failedTasks t @
             [\<lparr>result = Null, error = e,
               meta = \<lparr>index = k_index (awaiting t ! j), mlabel = k_label (awaiting t ! j),
                       duration = d\<rparr>\<rparr>] \<and>
           completeTasks (resume j d t) = completeTasks t \<and>
           handlerCalls (resume j d t) = handlerCalls t @
             emitted (listeners t) taskFailed
               \<lparr>result = Null, error = e,
                meta = \<lparr>index = k_index (awaiting t ! j), mlabel = k_label (awaiting t ! j),
                        duration = d\<rparr>\<rparr>"
  using assms
  by (simp_all add: resume_def finally_block_def on_fulfilled_def on_thrown_def emit_def
      reject_def resolve_def runTask_frame Let_def)

lemma runTask_dequeues:
  assumes "\<not> abort t" "queue t = x # rest"
  shows "queue (runTask t) = rest" "numActive (runTask t) = numActive t + 1"
    "awaiting (runTask t) = awaiting t @
       [\<lparr>k_index = numActive (runTask t) + numComplete (runTask t), k_label = label x,
         k_awaited = cb x (numActive (runTask t) + numComplete (runTask t)) (label x)\<rparr>]"
  using assms by (simp_all add: runTask_def Let_def)

lemma started_length:
  "length (started s) = length (awaiting s) + length (completeTasks s) + length (failedTasks s)"
  by (simp add: started_def)

text \<open>
  Claim C9. The index of a task is the value of \<open>numActive + numComplete\<close> read when the
  task is dequeued, after \<open>numActive\<close> has been incremented; it is carried unchanged into
  the outcome; and it numbers the dequeues: in every state of a run, with \<open>n\<close> tasks
  dequeued so far, the queue is the initial queue without its first \<open>n\<close> tasks, the
  indices in use are \<open>1, \<dots>, n\<close>, each once, and the index \<open>i\<close> is held by the \<open>i\<close>-th task
  dequeued, which is the task at the place \<open>i - 1\<close> of the initial array.
\<close>

theorem index_is_dequeue_sequence_number:
  assumes "fresh r"
  shows "(\<not> abort t \<and> queue t = x # rest \<longrightarrow>
            queue (runTask t) = rest \<and> numActive (runTask t) = numActive t + 1 \<and>
            awaiting (runTask t) = awaiting t @
              [\<lparr>k_index = numActive (runTask t) + numComplete (runTask t), k_label = label x,
                k_awaited = cb x (numActive (runTask t) + numComplete (runTask t)) (label x)\<rparr>]) \<and>
         (j < length (awaiting t) \<longrightarrow>
            (case k_awaited (awaiting t ! j) of
               Fulfilled v \<Rightarrow>
                 completeTasks (resume j d t) = completeTasks t @
                   [\<lparr>result = v, error = Null,
                     meta = \<lparr>index = k_index (awaiting t ! j),
                             mlabel = k_label (awaiting t ! j), duration = d\<rparr>\<rparr>] \<and>
                 failedTasks (resume j d t) = failedTasks t
             | Thrown e \<Rightarrow>
                 failedTasks (resume j d t) = failedTasks t @
                   [\<lparr>result = Null, error = e,
                     meta = \<lparr>index = k_index (awaiting t ! j),
                             mlabel = k_label (awaiting t ! j), duration = d\<rparr>\<rparr>] \<and>
                 completeTasks (resume j d t) = completeTasks t)) \<and>
         numActive (exec es (runAll r)) + numComplete (exec es (runAll r)) =
           int (length (queue r)) - int (length (queue (exec es (runAll r)))) \<and>
         queue (exec es (runAll r)) =
           drop (nat (numActive (exec es (runAll r)) + numComplete (exec es (runAll r)))) (queue r) \<and>
         distinct (started (exec es (runAll r))) \<and>
         set (started (exec es (runAll r))) =
           {1..numActive (exec es (runAll r)) + numComplete (exec es (runAll r))} \<and>
         (\<forall>k\<in>set (awaiting (exec es (runAll r))).
            k_label k = label (queue r ! nat (k_index k - 1)) \<and>
            k_awaited k = cb (queue r ! nat (k_index k - 1)) (k_index k) (k_label k)) \<and>
         (\<forall>e\<in>set (completeTasks (exec es (runAll r))).
            mlabel (meta e) = label (queue r ! nat (index (meta e) - 1)) \<and>
            cb (queue r ! nat (index (meta e) - 1)) (index (meta e)) (mlabel (meta e)) =
              Fulfilled (result e)) \<and>
         (\<forall>e\<in>set (failedTasks (exec es (runAll r))).
            mlabel (meta e) = label (queue r ! nat (index (meta e) - 1)) \<and>
            cb (queue r ! nat (index (meta e) - 1)) (index (meta e)) (mlabel (meta e)) =
              Thrown (error e))"
proof -
  define s where "s = exec es (runAll r)"
  have i: "inv_run r s" unfolding s_def using assms by (rule inv_run_exec)
  note c = inv_runD(1) [OF i] and x = inv_runD(4) [OF i]
  have n: "numActive s + numComplete s = int (length (started s))"
    using c by (simp add: inv_counts_def started_length)
  have 1: "\<not> abort t \<and> queue t = x # rest \<longrightarrow>
            queue (runTask t) = rest \<and> numActive (runTask t) = numActive t + 1 \<and>
            awaiting (runTask t) = awaiting t @
              [\<lparr>k_index = numActive (runTask t) + numComplete (runTask t), k_label = label x,
                k_awaited = cb x (numActive (runTask t) + numComplete (runTask t)) (label x)\<rparr>]"
    using runTask_dequeues [of t x rest] by blast
  have 2: "j < length (awaiting t) \<longrightarrow>
            (case k_awaited (awaiting t ! j) of
               Fulfilled v \<Rightarrow>
                 completeTasks (resume j d t) = completeTasks t @
                   [\<lparr>result = v, error = Null,
                     meta = \<lparr>index = k_index (awaiting t ! j),
                             mlabel = k_label (awaiting t ! j), duration = d\<rparr>\<rparr>] \<and>
                 failedTasks (resume j d t) = failedTasks t
             | Thrown e \<Rightarrow>
                 failedTasks (resume j d t) = failedTasks t @
                   [\<lparr>result = Null, error = e,
                     meta = \<lparr>index = k_index (awaiting t ! j),
                             mlabel = k_label (awaiting t ! j), duration = d\<rparr>\<rparr>] \<and>
                 completeTasks (resume j d t) = completeTasks t)"
    using resume_records [of j t] by (auto split: settled.splits)
  have 3: "numActive s + numComplete s = int (length (queue r)) - int (length (queue s))"
    using inv_counts_sum(1,2) [OF c] by simp
  have 4: "queue s = drop (nat (numActive s + numComplete s)) (queue r)"
    using c by (simp add: n) (simp add: inv_counts_def started_length)
  have 5: "distinct (started s)" "set (started s) = {1..numActive s + numComplete s}"
    using x by (simp_all add: inv_index_def n)
  have 6: "\<forall>k\<in>set (awaiting s).
            k_label k = label (queue r ! nat (k_index k - 1)) \<and>
            k_awaited k = cb (queue r ! nat (k_index k - 1)) (k_index k) (k_label k)"
    "\<forall>e\<in>set (completeTasks s).
            mlabel (meta e) = label (queue r ! nat (index (meta e) - 1)) \<and>
            cb (queue r ! nat (index (meta e) - 1)) (index (meta e)) (mlabel (meta e)) =
              Fulfilled (result e)"
    "\<forall>e\<in>set (failedTasks s).
            mlabel (meta e) = label (queue r ! nat (index (meta e) - 1)) \<and>
            cb (queue r ! nat (index (meta e) - 1)) (index (meta e)) (mlabel (meta e)) =
              Thrown (error e)"
    using x unfolding inv_index_def task_of_def by blast+
  show ?thesis
    using 1 2 3 4 5 6 unfolding s_def by blast
qed

theorem index_is_dequeue_sequence_number_witness:
  "fresh three_tasks \<and>
   \<not> abort (runAll three_tasks) \<and>
   queue (runAll three_tasks) = \<lparr>cb = ok_task, label = None\<rparr> # [] \<and>
   (1::nat) < length (awaiting (runAll three_tasks)) \<and>
   map k_index (awaiting (runAll three_tasks)) = [1, 2] \<and>
   map k_index (awaiting (runTask (runAll three_tasks))) = [1, 2, 3] \<and>
   numActive (runTask (runAll three_tasks)) + numComplete (runTask (runAll three_tasks)) = 3 \<and>
   map k_index (awaiting (exec [Settle 1 3, Settle 0 4] (runAll three_tasks))) = [3] \<and>
   map (index \<circ> meta) (completeTasks (exec [Settle 1 3, Settle 0 4] (runAll three_tasks))) = [1] \<and>
   map (index \<circ> meta) (failedTasks (exec [Settle 1 3, Settle 0 4] (runAll three_tasks))) = [2] \<and>
   set (started (exec [Settle 1 3, Settle 0 4] (runAll three_tasks))) = {1..3} \<and>
   queue (exec [Settle 1 3, Settle 0 4] (runAll three_tasks)) = drop 3 (queue three_tasks)"
proof -
  have f: "fresh three_tasks"
    by (simp add: three_tasks_def run_defs)
  have a: "\<not> abort (runAll three_tasks)"
    "queue (runAll three_tasks) = \<lparr>cb = ok_task, label = None\<rparr> # []"
    "(1::nat) < length (awaiting (runAll three_tasks))"
    "map k_index (awaiting (runAll three_tasks)) = [1, 2]"
    by (simp_all add: three_tasks_def run_defs numeral_2_eq_2)
  have b: "map k_index (awaiting (runTask (runAll three_tasks))) = [1, 2, 3]"
    "numActive (runTask (runAll three_tasks)) + numComplete (runTask (runAll three_tasks)) = 3"
    by (simp_all add: three_tasks_def run_defs numeral_2_eq_2)
  have c: "map k_index (awaiting (exec [Settle 1 3, Settle 0 4] (runAll three_tasks))) = [3]"
    "map (index \<circ> meta) (completeTasks (exec [Settle 1 3, Settle 0 4] (runAll three_tasks))) = [1]"
    "map (index \<circ> meta) (failedTasks (exec [Settle 1 3, Settle 0 4] (runAll three_tasks))) = [2]"
    "numActive (exec [Settle 1 3, Settle 0 4] (runAll three_tasks)) +
     numComplete (exec [Settle 1 3, Settle 0 4] (runAll three_tasks)) = 3"
    by (simp_all add: three_tasks_def run_defs numeral_2_eq_2)
  note t = index_is_dequeue_sequence_number [OF f, of "runAll three_tasks"
      "\<lparr>cb = ok_task, label = None\<rparr>" "[]" 1 3 "[Settle 1 3, Settle 0 4]"]
  from t have "set (started (exec [Settle 1 3, Settle 0 4] (runAll three_tasks))) =
      {1..numActive (exec [Settle 1 3, Settle 0 4] (runAll three_tasks)) +
          numComplete (exec [Settle 1 3, Settle 0 4] (runAll three_tasks))}"
    "queue (exec [Settle 1 3, Settle 0 4] (runAll three_tasks)) =
       drop (nat (numActive (exec [Settle 1 3, Settle 0 4] (runAll three_tasks)) +
          numComplete (exec [Settle 1 3, Settle 0 4] (runAll three_tasks)))) (queue three_tasks)"
    by blast+
  then have "set (started (exec [Settle 1 3, Settle 0 4] (runAll three_tasks))) = {1..3}"
    "queue (exec [Settle 1 3, Settle 0 4] (runAll three_tasks)) = drop (nat 3) (queue three_tasks)"
    unfolding c(4) by blast+
  then show ?thesis using f a b c(1-3) by simp
qed

subsection \<open>One outcome for each task\<close>







subsection \<open>A tolerance that covers every task\<close>









subsection \<open>The tolerance boundary\<close>







subsection \<open>After the abort\<close>







end
